theory Spec2Isabelle
  imports Main "HOL-Library.Multiset" "HOL-Library.Word"
begin

section \<open>Process tables shared by both simulators\<close>

text \<open>
  Both programs keep a process table as parallel vectors of C++ \<open>int\<close>, all of size \<open>n\<close>:
  \<open>pid\<close>, \<open>at\<close> (arrival time) and \<open>bt\<close> (burst time) are filled while reading the input,
  \<open>ct\<close>, \<open>tat\<close> and \<open>wt\<close> are value-initialised to zero and written by the simulation.

  C++ \<open>int\<close> is a 32-bit two's complement integer. The values read from the input are
  32-bit words, interpreted as signed; the vectors hold their values as integers, and every
  addition and subtraction of the source is followed by \<open>i32\<close>, which wraps the result around
  into the \<open>int\<close> range as the compiled program does. Comparisons need no wrapping. The
  number of processes and the loop counters over indices are natural numbers; a vector is a
  list, read with \<open>xs ! i\<close> and written with \<open>xs[i := v]\<close>, always at an index below \<open>n\<close>.

  The \<open>float\<close> accumulators \<open>totalTAT\<close> and \<open>totalWT\<close> and the two averages printed from them
  are floating-point values and are not part of the embedding.
\<close>

type_synonym cint = "32 word"

definition i32 :: "int \<Rightarrow> int" where
  "i32 x = (x + 2147483648) mod 4294967296 - 2147483648"

record procs =
  pid :: "int list"
  at :: "int list"
  bt :: "int list"

text \<open>The input loop of both \<open>main\<close> functions: \<open>pid[i] = i + 1\<close>, then \<open>at[i]\<close> and \<open>bt[i]\<close>
  are read. The input is the list of the pairs (arrival time, burst time) that were read.\<close>

definition read_input :: "(cint \<times> cint) list \<Rightarrow> procs" where
  "read_input inp =
     \<lparr>pid = map (\<lambda>i. int i + 1) [0..<length inp],
      at = map (\<lambda>x. sint (fst x)) inp, bt = map (\<lambda>x. sint (snd x)) inp\<rparr>"

text \<open>The simulation clock and the three computed columns.\<close>

record table =
  time :: int
  ct :: "int list"
  tat :: "int list"
  wt :: "int list"

text \<open>One printed line of the result table: pid, at, bt, ct, tat, wt.\<close>

type_synonym row = "int \<times> int \<times> int \<times> int \<times> int \<times> int"

definition print_rows :: "nat \<Rightarrow> procs \<Rightarrow> 'a table_scheme \<Rightarrow> row list" where
  "print_rows n p s =
     map (\<lambda>i. (pid p ! i, at p ! i, bt p ! i, ct s ! i, tat s ! i, wt s ! i)) [0..<n]"

section \<open>pid.cpp: first come, first served\<close>

subsection \<open>The arrival-time sort (lines 26-34)\<close>

text \<open>\<open>std::swap\<close> on two elements of one vector.\<close>

definition swap :: "nat \<Rightarrow> nat \<Rightarrow> 'a list \<Rightarrow> 'a list" where
  "swap i j xs = xs[i := xs ! j, j := xs ! i]"

text \<open>The body of the inner loop: compare positions \<open>i\<close> and \<open>j\<close>, swap all three columns
  when \<open>at[i] > at[j]\<close>.\<close>

definition sort_cmp :: "nat \<Rightarrow> nat \<Rightarrow> procs \<Rightarrow> procs" where
  "sort_cmp i j p =
     (if at p ! i > at p ! j
      then p\<lparr>at := swap i j (at p), bt := swap i j (bt p), pid := swap i j (pid p)\<rparr>
      else p)"

text \<open>\<open>for (j = i + 1; j < n; j++)\<close>\<close>

definition sort_inner :: "nat \<Rightarrow> nat \<Rightarrow> procs \<Rightarrow> procs" where
  "sort_inner n i p = fold (sort_cmp i) [i + 1..<n] p"

text \<open>\<open>for (i = 0; i < n - 1; i++)\<close>\<close>

definition sort_arrival :: "nat \<Rightarrow> procs \<Rightarrow> procs" where
  "sort_arrival n p = fold (sort_inner n) [0..<n - 1] p"

subsection \<open>The simulation loop (lines 36-51)\<close>

definition fcfs_step :: "procs \<Rightarrow> nat \<Rightarrow> table \<Rightarrow> table" where
  "fcfs_step p i s =
     (let t = (if time s < at p ! i then at p ! i else time s);
          c = (ct s)[i := i32 (t + bt p ! i)];
          w = (wt s)[i := i32 (c ! i - i32 (at p ! i + bt p ! i))];
          ta = (tat s)[i := i32 (c ! i - at p ! i)]
      in \<lparr>time = c ! i, ct = c, tat = ta, wt = w\<rparr>)"

definition fcfs_init :: "nat \<Rightarrow> table" where
  "fcfs_init n = \<lparr>time = 0, ct = replicate n 0, tat = replicate n 0, wt = replicate n 0\<rparr>"

definition fcfs_loop :: "nat \<Rightarrow> procs \<Rightarrow> table \<Rightarrow> table" where
  "fcfs_loop n p s = fold (fcfs_step p) [0..<n] s"

text \<open>The whole run: the sorted table and the simulation's final state.\<close>

definition fcfs_sorted :: "(cint \<times> cint) list \<Rightarrow> procs" where
  "fcfs_sorted inp = sort_arrival (length inp) (read_input inp)"

definition fcfs_run :: "(cint \<times> cint) list \<Rightarrow> table" where
  "fcfs_run inp = fcfs_loop (length inp) (fcfs_sorted inp) (fcfs_init (length inp))"


section \<open>sjf.cpp: shortest job first\<close>

text \<open>
  Both modes count the completed processes. The field \<open>writes\<close> is a ghost variable: it logs
  every assignment \<open>ct[idx] = time\<close> as the pair (index, value), in the order of execution.
\<close>

record sjf_state = table +
  completed :: nat
  writes :: "(nat \<times> int) list"

subsection \<open>Non-preemptive mode (lines 30-61)\<close>

text \<open>The vector \<open>done\<close> of the source is the field \<open>done_flags\<close>.\<close>

record np_state = sjf_state +
  done_flags :: "bool list"

text \<open>The selection scan, lines 35-43. The accumulator is the pair (\<open>minBT\<close>, \<open>idx\<close>), starting
  at (\<open>1e9\<close>, \<open>-1\<close>); \<open>idx = -1\<close> is \<open>None\<close>.\<close>

definition np_pick :: "procs \<Rightarrow> int \<Rightarrow> bool list \<Rightarrow> nat \<Rightarrow> int \<times> nat option \<Rightarrow> int \<times> nat option" where
  "np_pick p t d i acc =
     (if at p ! i \<le> t \<and> \<not> d ! i \<and> bt p ! i < fst acc then (bt p ! i, Some i) else acc)"

definition np_scan :: "nat \<Rightarrow> procs \<Rightarrow> int \<Rightarrow> bool list \<Rightarrow> nat option" where
  "np_scan n p t d = snd (fold (np_pick p t d) [0..<n] (1000000000, None))"

text \<open>One iteration of the \<open>while\<close> loop, lines 35-59.\<close>

definition np_body :: "nat \<Rightarrow> procs \<Rightarrow> np_state \<Rightarrow> np_state" where
  "np_body n p s =
     (case np_scan n p (time s) (done_flags s) of
        None \<Rightarrow> s\<lparr>time := i32 (time s + 1)\<rparr>
      | Some idx \<Rightarrow>
          (let t = i32 (time s + bt p ! idx);
               c = (ct s)[idx := t];
               ta = (tat s)[idx := i32 (c ! idx - at p ! idx)];
               w = (wt s)[idx := i32 (ta ! idx - bt p ! idx)]
           in s\<lparr>time := t, ct := c, tat := ta, wt := w,
                 done_flags := (done_flags s)[idx := True],
                 completed := completed s + 1,
                 writes := writes s @ [(idx, t)]\<rparr>))"

definition np_init :: "nat \<Rightarrow> np_state" where
  "np_init n =
     \<lparr>time = 0, ct = replicate n 0, tat = replicate n 0, wt = replicate n 0,
      completed = 0, writes = [], done_flags = replicate n False\<rparr>"

text \<open>\<open>while (completed < n)\<close>; a run that never leaves the loop is \<open>None\<close>.\<close>

partial_function (option) np_loop :: "nat \<Rightarrow> procs \<Rightarrow> np_state \<Rightarrow> np_state option" where
  "np_loop n p s = (if completed s < n then np_loop n p (np_body n p s) else Some s)"

declare np_loop.simps [code]

text \<open>The state after \<open>k\<close> executions of the loop body, whatever the loop condition says.\<close>

fun np_steps :: "nat \<Rightarrow> procs \<Rightarrow> nat \<Rightarrow> np_state \<Rightarrow> np_state" where
  "np_steps n p 0 s = s"
| "np_steps n p (Suc k) s = np_steps n p k (np_body n p s)"

subsection \<open>Preemptive mode (lines 64-97)\<close>

record p_state = sjf_state +
  rt :: "int list"

definition p_pick :: "procs \<Rightarrow> int \<Rightarrow> int list \<Rightarrow> nat \<Rightarrow> int \<times> nat option \<Rightarrow> int \<times> nat option" where
  "p_pick p t r i acc =
     (if at p ! i \<le> t \<and> r ! i > 0 \<and> r ! i < fst acc then (r ! i, Some i) else acc)"

definition p_scan :: "nat \<Rightarrow> procs \<Rightarrow> int \<Rightarrow> int list \<Rightarrow> nat option" where
  "p_scan n p t r = snd (fold (p_pick p t r) [0..<n] (1000000000, None))"

definition p_body :: "nat \<Rightarrow> procs \<Rightarrow> p_state \<Rightarrow> p_state" where
  "p_body n p s =
     (case p_scan n p (time s) (rt s) of
        None \<Rightarrow> s\<lparr>time := i32 (time s + 1)\<rparr>
      | Some idx \<Rightarrow>
          (let r = (rt s)[idx := i32 (rt s ! idx - 1)];
               t = i32 (time s + 1)
           in if r ! idx = 0
              then (let c = (ct s)[idx := t];
                        ta = (tat s)[idx := i32 (c ! idx - at p ! idx)];
                        w = (wt s)[idx := i32 (ta ! idx - bt p ! idx)]
                    in s\<lparr>time := t, ct := c, tat := ta, wt := w, rt := r,
                          completed := completed s + 1,
                          writes := writes s @ [(idx, t)]\<rparr>)
              else s\<lparr>time := t, rt := r\<rparr>))"

definition p_init :: "nat \<Rightarrow> procs \<Rightarrow> p_state" where
  "p_init n p =
     \<lparr>time = 0, ct = replicate n 0, tat = replicate n 0, wt = replicate n 0,
      completed = 0, writes = [], rt = bt p\<rparr>"

partial_function (option) p_loop :: "nat \<Rightarrow> procs \<Rightarrow> p_state \<Rightarrow> p_state option" where
  "p_loop n p s = (if completed s < n then p_loop n p (p_body n p s) else Some s)"

declare p_loop.simps [code]

fun p_steps :: "nat \<Rightarrow> procs \<Rightarrow> nat \<Rightarrow> p_state \<Rightarrow> p_state" where
  "p_steps n p 0 s = s"
| "p_steps n p (Suc k) s = p_steps n p k (p_body n p s)"

subsection \<open>The mode selector and the output (lines 30, 64, 99-112)\<close>

text \<open>What \<open>main\<close> prints after the prompts: the message of the \<open>else\<close> branch, after which
  \<open>main\<close> returns, or the result table. The run also yields the log of \<open>ct\<close> assignments.\<close>

datatype report = Invalid_choice | Table "row list"

definition sjf_main :: "(cint \<times> cint) list \<Rightarrow> int \<Rightarrow> ((nat \<times> int) list \<times> report) option" where
  "sjf_main inp choice =
     (let n = length inp; p = read_input inp in
      if choice = 1 then
        (case np_loop n p (np_init n) of
           None \<Rightarrow> None
         | Some s \<Rightarrow> Some (writes s, Table (print_rows n p s)))
      else if choice = 2 then
        (case p_loop n p (p_init n p) of
           None \<Rightarrow> None
         | Some s \<Rightarrow> Some (writes s, Table (print_rows n p s)))
      else Some ([], Invalid_choice))"

section \<open>Notions of the specification\<close>

text \<open>A valid input: at least one process, every arrival time non-negative, every burst
  time positive.\<close>

definition valid_input :: "(cint \<times> cint) list \<Rightarrow> bool" where
  "valid_input inp \<longleftrightarrow> inp \<noteq> [] \<and> (\<forall>(a, b)\<in>set inp. 0 \<le> sint a \<and> 0 < sint b)"

text \<open>The range of a C++ \<open>int\<close>.\<close>

definition in_int :: "int \<Rightarrow> bool" where
  "in_int x \<longleftrightarrow> - 2147483648 \<le> x \<and> x \<le> 2147483647"

text \<open>The latest arrival time (0 for an empty table), and the inputs on which no clock value
  can leave the \<open>int\<close> range: the latest arrival time plus the sum of all burst times is at
  most \<open>2^31 - 1\<close>.\<close>

definition horizon :: "procs \<Rightarrow> int" where
  "horizon p = Max (insert 0 (set (at p)))"


text \<open>The completion times as the specification describes the FCFS simulation: a clock,
  and for each record in order \<open>clock = max(clock, arrivalTime)\<close>,
  \<open>completionTime = clock + burstTime\<close>, \<open>clock = completionTime\<close>.\<close>

fun spec_fcfs :: "int \<Rightarrow> (int \<times> int) list \<Rightarrow> int list" where
  "spec_fcfs clock [] = []"
| "spec_fcfs clock ((a, b) # ps) =
     (let clock1 = max clock a; c = clock1 + b in c # spec_fcfs c ps)"

text \<open>The example of the specification: A, B and C as (arrival, burst), in input order.\<close>

definition abc_input :: "(cint \<times> cint) list" where
  "abc_input = [(0, 8), (1, 4), (2, 2)]"


text \<open>The completion-time column of a row.\<close>

definition row_ct :: "row \<Rightarrow> int" where
  "row_ct r = (case r of (i, a, b, c, ta, w) \<Rightarrow> c)"

text \<open>Every burst time is below the initial minimum \<open>1e9\<close> of the selection scans.\<close>

definition short_jobs :: "(cint \<times> cint) list \<Rightarrow> bool" where
  "short_jobs inp \<longleftrightarrow> (\<forall>(a, b)\<in>set inp. sint b < 1000000000)"

text \<open>The selection the specification asks for: an eligible record (not completed, arrived)
  that is minimal for burst time, then arrival time, then id.\<close>

definition spec_sjf_choice :: "nat \<Rightarrow> procs \<Rightarrow> int \<Rightarrow> bool list \<Rightarrow> nat \<Rightarrow> bool" where
  "spec_sjf_choice n p t d i \<longleftrightarrow>
     i < n \<and> at p ! i \<le> t \<and> \<not> d ! i \<and>
     (\<forall>j\<in>{..<n}. at p ! j \<le> t \<and> \<not> d ! j \<longrightarrow>
        bt p ! i < bt p ! j \<or>
        (bt p ! i = bt p ! j \<and>
          (at p ! i < at p ! j \<or> (at p ! i = at p ! j \<and> pid p ! i \<le> pid p ! j))))"

text \<open>The same without the arrival time: minimal for burst time, then id.\<close>

definition code_sjf_choice :: "nat \<Rightarrow> procs \<Rightarrow> int \<Rightarrow> bool list \<Rightarrow> nat \<Rightarrow> bool" where
  "code_sjf_choice n p t d i \<longleftrightarrow>
     i < n \<and> at p ! i \<le> t \<and> \<not> d ! i \<and>
     (\<forall>j\<in>{..<n}. at p ! j \<le> t \<and> \<not> d ! j \<longrightarrow>
        bt p ! i < bt p ! j \<or> (bt p ! i = bt p ! j \<and> pid p ! i \<le> pid p ! j))"

text \<open>Two inputs used below: one where two records of equal burst time are eligible at the
  same selection point, the later one in input order having arrived first; and one with a
  single record whose burst time is the initial minimum of the scans.\<close>

definition tie_input :: "(cint \<times> cint) list" where
  "tie_input = [(0, 5), (2, 3), (1, 3)]"

definition huge_input :: "(cint \<times> cint) list" where
  "huge_input = [(0, 1000000000)]"

text \<open>The process table as one list of records (pid, at, bt).\<close>

definition records :: "procs \<Rightarrow> (int \<times> int \<times> int) list" where
  "records p = zip (pid p) (zip (at p) (bt p))"

text \<open>Stability as the specification states it, on a table in simulation order: of two records
  with equal arrival time, the one with the lower id (the earlier one in the input) comes
  first.\<close>

definition stable_by_id :: "procs \<Rightarrow> bool" where
  "stable_by_id p \<longleftrightarrow>
     (\<forall>j\<in>{..<length (at p)}. \<forall>i\<in>{..<j}. at p ! i = at p ! j \<longrightarrow> pid p ! i < pid p ! j)"

text \<open>An input with two records of equal arrival time and a third that arrives earlier; and
  an input with one burst time at the initial minimum of the scans and one below it.\<close>

definition dup_input :: "(cint \<times> cint) list" where
  "dup_input = [(2, 5), (2, 7), (1, 3)]"

definition mixed_input :: "(cint \<times> cint) list" where
  "mixed_input = [(0, 1000000000), (0, 2)]"

text \<open>Two valid inputs on which the clock leaves the \<open>int\<close> range: two records whose burst
  times add up to \<open>2^31\<close>, and three records of burst time \<open>999999999\<close>.\<close>

definition big_input :: "(cint \<times> cint) list" where
  "big_input = [(0, 2147483647), (0, 1)]"


section \<open>Auxiliary notions of the proofs\<close>

definition same_lengths :: "procs \<Rightarrow> procs \<Rightarrow> bool" where
  "same_lengths p q \<longleftrightarrow>
     length (at q) = length (at p) \<and> length (bt q) = length (bt p) \<and>
     length (pid q) = length (pid p)"

text \<open>Both selection scans are instances of one scan: among the indices that satisfy \<open>E\<close>,
  keep the first one whose key \<open>K\<close> is strictly below the running minimum.\<close>

definition pick :: "(nat \<Rightarrow> bool) \<Rightarrow> (nat \<Rightarrow> int) \<Rightarrow> nat \<Rightarrow> int \<times> nat option \<Rightarrow> int \<times> nat option" where
  "pick E K i acc = (if E i \<and> K i < fst acc then (K i, Some i) else acc)"

definition scan_post :: "(nat \<Rightarrow> bool) \<Rightarrow> (nat \<Rightarrow> int) \<Rightarrow> int \<Rightarrow> nat \<Rightarrow> int \<times> nat option \<Rightarrow> bool" where
  "scan_post E K B k acc \<longleftrightarrow>
     (case snd acc of
        None \<Rightarrow> fst acc = B \<and> (\<forall>j<k. E j \<longrightarrow> B \<le> K j)
      | Some i \<Rightarrow> i < k \<and> E i \<and> fst acc = K i \<and> K i < B \<and>
          (\<forall>j<k. E j \<longrightarrow> K i < K j \<or> (K i = K j \<and> i \<le> j)))"


text \<open>The log of \<open>ct\<close> assignments is consistent with the state: \<open>completed\<close> counts its
  entries, no index occurs twice, the indices are exactly the set \<open>D\<close>, and \<open>ct\<close> still holds
  every logged value.\<close>

definition log_ok :: "nat \<Rightarrow> 'a sjf_state_scheme \<Rightarrow> nat set \<Rightarrow> bool" where
  "log_ok n s D \<longleftrightarrow>
     length (ct s) = n \<and> length (tat s) = n \<and> length (wt s) = n \<and>
     completed s = length (writes s) \<and> distinct (map fst (writes s)) \<and>
     fst ` set (writes s) = D \<and>
     (\<forall>(i, v)\<in>set (writes s). ct s ! i = v)"

text \<open>What the proofs need of a process table: its columns have \<open>n\<close> entries within the
  \<open>int\<close> range; the entries are valid; the clock cannot leave the \<open>int\<close> range.\<close>

definition table_ok :: "nat \<Rightarrow> procs \<Rightarrow> bool" where
  "table_ok n p \<longleftrightarrow>
     length (at p) = n \<and> length (bt p) = n \<and> (\<forall>i<n. in_int (at p ! i) \<and> in_int (bt p ! i))"

definition table_valid :: "nat \<Rightarrow> procs \<Rightarrow> bool" where
  "table_valid n p \<longleftrightarrow> (\<forall>i<n. 0 \<le> at p ! i \<and> 0 < bt p ! i)"


text \<open>The invariants of the two \<open>while\<close> loops. The first of each pair holds whatever the
  arithmetic does: the log is consistent, the clock is an \<open>int\<close>, and every record
  selected so far has a burst time below \<open>1e9\<close>. The second needs a table on which the
  clock cannot overflow: the clock is bounded by the latest arrival plus the work done, and
  the completed records satisfy the metric relations.\<close>

definition np_inv :: "nat \<Rightarrow> procs \<Rightarrow> np_state \<Rightarrow> bool" where
  "np_inv n p s \<longleftrightarrow>
     length (done_flags s) = n \<and> log_ok n s {i. i < n \<and> done_flags s ! i} \<and>
     in_int (time s) \<and> (\<forall>i<n. done_flags s ! i \<longrightarrow> bt p ! i < 1000000000)"


definition p_inv :: "nat \<Rightarrow> procs \<Rightarrow> p_state \<Rightarrow> bool" where
  "p_inv n p s \<longleftrightarrow>
     length (rt s) = n \<and> log_ok n s {i. i < n \<and> rt s ! i = 0} \<and> in_int (time s) \<and>
     (\<forall>i<n. 0 \<le> rt s ! i \<and> rt s ! i \<le> bt p ! i) \<and>
     (\<forall>i<n. rt s ! i < bt p ! i \<longrightarrow> bt p ! i < 1000000000)"


text \<open>Termination: lexicographically, the work left and the distance of the clock to the
  latest arrival.\<close>

definition np_order :: "nat \<Rightarrow> procs \<Rightarrow> (np_state \<times> np_state) set" where
  "np_order n p =
     inv_image (less_than <*lex*> less_than)
       (\<lambda>s. (n - completed s, nat (horizon p - time s)))"

definition p_order :: "procs \<Rightarrow> (p_state \<times> p_state) set" where
  "p_order p =
     inv_image (less_than <*lex*> less_than)
       (\<lambda>s. (sum_list (map nat (rt s)), nat (horizon p - time s)))"

text \<open>The invariant of the exchange sort: positions below \<open>k\<close> hold values that are at most
  every value to their right; within one pass, position \<open>i\<close> is at most the positions
  already compared with it.\<close>

definition prefix_min :: "nat \<Rightarrow> nat \<Rightarrow> int list \<Rightarrow> bool" where
  "prefix_min n k xs \<longleftrightarrow> (\<forall>a<k. \<forall>b<n. a < b \<longrightarrow> xs ! a \<le> xs ! b)"

definition least_upto :: "nat \<Rightarrow> nat \<Rightarrow> int list \<Rightarrow> bool" where
  "least_upto i j xs \<longleftrightarrow> (\<forall>b<j. i < b \<longrightarrow> xs ! i \<le> xs ! b)"

definition sort_inv :: "nat \<Rightarrow> procs \<Rightarrow> nat \<Rightarrow> procs \<Rightarrow> bool" where
  "sort_inv n p k q \<longleftrightarrow>
     length (at q) = n \<and> length (bt q) = n \<and> length (pid q) = n \<and>
     mset (records q) = mset (records p) \<and> prefix_min n k (at q)"

section \<open>Loops\<close>

text \<open>The invariant rule of a counting \<open>for\<close> loop.\<close>

lemma fold_upt_inv:
  assumes "i \<le> n" and "I i s"
    and "\<And>k s. i \<le> k \<Longrightarrow> k < n \<Longrightarrow> I k s \<Longrightarrow> I (Suc k) (f k s)"
  shows "I n (fold f [i..<n] s)"
  using assms
proof (induction n)
  case 0
  then show ?case by simp
next
  case (Suc n)
  show ?case
  proof (cases "i = Suc n")
    case True
    with Suc.prems(2) show ?thesis by simp
  next
    case False
    with Suc.prems(1) have le: "i \<le> n" by simp
    have "I n (fold f [i..<n] s)"
      using le Suc.prems(2) Suc.prems(3) by (intro Suc.IH) simp_all
    then have "I (Suc n) (f n (fold f [i..<n] s))"
      using le by (intro Suc.prems(3)) simp_all
    with le show ?thesis by simp
  qed
qed

subsection \<open>The selection scans\<close>

lemma pick_step:
  assumes "scan_post E K B k acc"
  shows "scan_post E K B (Suc k) (pick E K k acc)"
proof (cases "snd acc")
  case None
  with assms show ?thesis
    by (auto simp: scan_post_def pick_def less_Suc_eq)
next
  case (Some i)
  with assms show ?thesis
    by (auto simp: scan_post_def pick_def less_Suc_eq)
qed

lemma scan_fold:
  "scan_post E K B n (fold (pick E K) [0..<n] (B, None))"
  by (rule fold_upt_inv [where I = "scan_post E K B"])
     (simp_all add: scan_post_def pick_step [unfolded scan_post_def])

lemma np_pick_eq: "np_pick p t d = pick (\<lambda>i. at p ! i \<le> t \<and> \<not> d ! i) (\<lambda>i. bt p ! i)"
  by (intro ext) (simp add: np_pick_def pick_def)

lemma p_pick_eq: "p_pick p t r = pick (\<lambda>i. at p ! i \<le> t \<and> r ! i > 0) (\<lambda>i. r ! i)"
  by (intro ext) (simp add: p_pick_def pick_def)

lemma np_scan_None:
  "np_scan n p t d = None \<longleftrightarrow> (\<forall>j<n. at p ! j \<le> t \<and> \<not> d ! j \<longrightarrow> 1000000000 \<le> bt p ! j)"
  using scan_fold [of "\<lambda>i. at p ! i \<le> t \<and> \<not> d ! i" "\<lambda>i. bt p ! i" 1000000000 n]
  by (auto simp: np_scan_def np_pick_eq scan_post_def split: option.splits)

lemma np_scan_Some:
  assumes "np_scan n p t d = Some i"
  shows "i < n \<and> at p ! i \<le> t \<and> \<not> d ! i \<and> bt p ! i < 1000000000 \<and>
     (\<forall>j<n. at p ! j \<le> t \<and> \<not> d ! j \<longrightarrow> bt p ! i < bt p ! j \<or> (bt p ! i = bt p ! j \<and> i \<le> j))"
  using scan_fold [of "\<lambda>i. at p ! i \<le> t \<and> \<not> d ! i" "\<lambda>i. bt p ! i" 1000000000 n] assms
  by (simp add: np_scan_def np_pick_eq scan_post_def split: option.splits)

lemma p_scan_None:
  "p_scan n p t r = None \<longleftrightarrow> (\<forall>j<n. at p ! j \<le> t \<and> r ! j > 0 \<longrightarrow> 1000000000 \<le> r ! j)"
  using scan_fold [of "\<lambda>i. at p ! i \<le> t \<and> r ! i > 0" "\<lambda>i. r ! i" 1000000000 n]
  by (auto simp: p_scan_def p_pick_eq scan_post_def split: option.splits)

lemma p_scan_Some:
  assumes "p_scan n p t r = Some i"
  shows "i < n \<and> at p ! i \<le> t \<and> r ! i > 0 \<and> r ! i < 1000000000 \<and>
     (\<forall>j<n. at p ! j \<le> t \<and> r ! j > 0 \<longrightarrow> r ! i < r ! j \<or> (r ! i = r ! j \<and> i \<le> j))"
  using scan_fold [of "\<lambda>i. at p ! i \<le> t \<and> r ! i > 0" "\<lambda>i. r ! i" 1000000000 n] assms
  by (simp add: p_scan_def p_pick_eq scan_post_def split: option.splits)

lemma np_loop_rule:
  assumes run: "np_loop n p s = Some r" and init: "I s"
    and step: "\<And>s. I s \<Longrightarrow> completed s < n \<Longrightarrow> I (np_body n p s)"
  shows "I r \<and> \<not> completed r < n"
proof -
  let ?P = "\<lambda>n' p' s r. n' = n \<longrightarrow> p' = p \<longrightarrow> I s \<longrightarrow> I r \<and> \<not> completed r < n"
  have "?P n p s r"
  proof (rule np_loop.raw_induct [where P = ?P, OF _ run])
    fix loop n' p' s r
    assume IH: "\<And>n' p' s r. loop n' p' s = Some r \<Longrightarrow> ?P n' p' s r"
      and unfold: "(if completed s < n' then loop n' p' (np_body n' p' s) else Some s) = Some r"
    show "?P n' p' s r"
    proof (intro impI)
      assume eq: "n' = n" "p' = p" and I: "I s"
      show "I r \<and> \<not> completed r < n"
      proof (cases "completed s < n")
        case True
        with unfold eq have "loop n p (np_body n p s) = Some r" by simp
        from IH [OF this] step [OF I True] show ?thesis by simp
      next
        case False
        with unfold eq I show ?thesis by simp
      qed
    qed
  qed
  with init show ?thesis by simp
qed

lemma np_loop_terminates:
  assumes "wf R" and "I s"
    and "\<And>s. I s \<Longrightarrow> completed s < n \<Longrightarrow> I (np_body n p s) \<and> (np_body n p s, s) \<in> R"
  shows "\<exists>r. np_loop n p s = Some r"
  using assms(1,2)
proof (induction s rule: wf_induct_rule)
  case (less s)
  show ?case
  proof (cases "completed s < n")
    case True
    with assms(3) less.prems have "I (np_body n p s)" "(np_body n p s, s) \<in> R" by simp_all
    then have "\<exists>r. np_loop n p (np_body n p s) = Some r" by (rule less.IH [rotated])
    with True show ?thesis by (subst np_loop.simps) simp
  next
    case False
    then show ?thesis by (subst np_loop.simps) simp
  qed
qed

lemma np_loop_diverges:
  assumes "I s" and "\<And>s. I s \<Longrightarrow> completed s < n \<and> I (np_body n p s)"
  shows "np_loop n p s = None"
proof (cases "np_loop n p s")
  case (Some r)
  from np_loop_rule [OF Some, where I = I] assms have "I r \<and> \<not> completed r < n" by blast
  with assms(2) show ?thesis by blast
qed simp

lemma p_loop_rule:
  assumes run: "p_loop n p s = Some r" and init: "I s"
    and step: "\<And>s. I s \<Longrightarrow> completed s < n \<Longrightarrow> I (p_body n p s)"
  shows "I r \<and> \<not> completed r < n"
proof -
  let ?P = "\<lambda>n' p' s r. n' = n \<longrightarrow> p' = p \<longrightarrow> I s \<longrightarrow> I r \<and> \<not> completed r < n"
  have "?P n p s r"
  proof (rule p_loop.raw_induct [where P = ?P, OF _ run])
    fix loop n' p' s r
    assume IH: "\<And>n' p' s r. loop n' p' s = Some r \<Longrightarrow> ?P n' p' s r"
      and unfold: "(if completed s < n' then loop n' p' (p_body n' p' s) else Some s) = Some r"
    show "?P n' p' s r"
    proof (intro impI)
      assume eq: "n' = n" "p' = p" and I: "I s"
      show "I r \<and> \<not> completed r < n"
      proof (cases "completed s < n")
        case True
        with unfold eq have "loop n p (p_body n p s) = Some r" by simp
        from IH [OF this] step [OF I True] show ?thesis by simp
      next
        case False
        with unfold eq I show ?thesis by simp
      qed
    qed
  qed
  with init show ?thesis by simp
qed

lemma p_loop_terminates:
  assumes "wf R" and "I s"
    and "\<And>s. I s \<Longrightarrow> completed s < n \<Longrightarrow> I (p_body n p s) \<and> (p_body n p s, s) \<in> R"
  shows "\<exists>r. p_loop n p s = Some r"
  using assms(1,2)
proof (induction s rule: wf_induct_rule)
  case (less s)
  show ?case
  proof (cases "completed s < n")
    case True
    with assms(3) less.prems have "I (p_body n p s)" "(p_body n p s, s) \<in> R" by simp_all
    then have "\<exists>r. p_loop n p (p_body n p s) = Some r" by (rule less.IH [rotated])
    with True show ?thesis by (subst p_loop.simps) simp
  next
    case False
    then show ?thesis by (subst p_loop.simps) simp
  qed
qed

lemma p_loop_diverges:
  assumes "I s" and "\<And>s. I s \<Longrightarrow> completed s < n \<and> I (p_body n p s)"
  shows "p_loop n p s = None"
proof (cases "p_loop n p s")
  case (Some r)
  from p_loop_rule [OF Some, where I = I] assms have "I r \<and> \<not> completed r < n" by blast
  with assms(2) show ?thesis by blast
qed simp

section \<open>The \<open>int\<close> range and the input table\<close>

lemma i32_id: "in_int x \<Longrightarrow> i32 x = x"
  by (simp add: i32_def in_int_def)

lemma i32_range: "in_int (i32 x)"
  by (simp add: i32_def in_int_def)

lemma in_int_sint: "in_int (sint (x :: cint))"
  using sint_ge [of x] sint_lt [of x] by (simp add: in_int_def)

lemma read_input_sel:
  "length (at (read_input inp)) = length inp" "length (bt (read_input inp)) = length inp"
  "length (pid (read_input inp)) = length inp"
  "i < length inp \<Longrightarrow> at (read_input inp) ! i = sint (fst (inp ! i))"
  "i < length inp \<Longrightarrow> bt (read_input inp) ! i = sint (snd (inp ! i))"
  "i < length inp \<Longrightarrow> pid (read_input inp) ! i = int i + 1"
  by (simp_all add: read_input_def)

lemma read_input_ok: "table_ok (length inp) (read_input inp)"
  by (simp add: table_ok_def read_input_sel in_int_sint)

lemma valid_input_bt:
  assumes "valid_input inp"
  shows "table_valid (length inp) (read_input inp)"
  unfolding table_valid_def
proof (intro allI impI)
  fix i assume i: "i < length inp"
  then have "(fst (inp ! i), snd (inp ! i)) \<in> set inp" by simp
  with assms have "0 \<le> sint (fst (inp ! i)) \<and> 0 < sint (snd (inp ! i))"
    unfolding valid_input_def by blast
  with i show "0 \<le> at (read_input inp) ! i \<and> 0 < bt (read_input inp) ! i"
    by (simp add: read_input_sel)
qed

lemma short_jobs_bt:
  assumes "short_jobs inp"
  shows "\<forall>i<length inp. bt (read_input inp) ! i < 1000000000"
proof (intro allI impI)
  fix i assume i: "i < length inp"
  then have "(fst (inp ! i), snd (inp ! i)) \<in> set inp" by simp
  with assms have "sint (snd (inp ! i)) < 1000000000" unfolding short_jobs_def by blast
  with i show "bt (read_input inp) ! i < 1000000000" by (simp add: read_input_sel)
qed

lemma horizon_ge: "i < length (at p) \<Longrightarrow> at p ! i \<le> horizon p"
  by (simp add: horizon_def)



section \<open>The arrival-time sort\<close>

lemma length_swap [simp]: "length (swap i j xs) = length xs"
  by (simp add: swap_def)

lemma sort_cmp_lengths: "same_lengths p q \<Longrightarrow> same_lengths p (sort_cmp i j q)"
  by (simp add: sort_cmp_def same_lengths_def)

lemma sort_inner_lengths: "same_lengths p q \<Longrightarrow> same_lengths p (sort_inner n i q)"
  unfolding sort_inner_def
  by (cases "i + 1 \<le> n")
     (auto intro: fold_upt_inv [where I = "\<lambda>_. same_lengths p"] sort_cmp_lengths)

lemma sort_arrival_lengths: "same_lengths p (sort_arrival n p)"
  unfolding sort_arrival_def
proof (rule fold_upt_inv [where I = "\<lambda>_. same_lengths p"])
  show "same_lengths p p" by (simp add: same_lengths_def)
qed (simp_all add: sort_inner_lengths)

lemma fcfs_sorted_lengths:
  "length (at (fcfs_sorted inp)) = length inp \<and> length (bt (fcfs_sorted inp)) = length inp
   \<and> length (pid (fcfs_sorted inp)) = length inp"
  using sort_arrival_lengths [of "read_input inp" "length inp"]
  by (simp add: fcfs_sorted_def same_lengths_def read_input_def)

lemma nth_swap:
  assumes "i < length xs" "j < length xs"
  shows "swap i j xs ! k = (if k = j then xs ! i else if k = i then xs ! j else xs ! k)"
  using assms by (simp add: swap_def nth_list_update)

lemma mset_swap_records:
  assumes "i < n" "j < n" "length (at p) = n" "length (bt p) = n" "length (pid p) = n"
  shows "mset (zip (swap i j (pid p)) (zip (swap i j (at p)) (swap i j (bt p)))) =
    mset (records p)"
proof -
  have "zip (swap i j (pid p)) (zip (swap i j (at p)) (swap i j (bt p))) =
    swap i j (records p)"
    using assms by (simp add: swap_def records_def zip_update)
  moreover have "mset (swap i j (records p)) = mset (records p)"
    using assms mset_swap [of j "records p" i] by (simp add: swap_def records_def)
  ultimately show ?thesis by simp
qed

lemma prefix_min_swap:
  assumes "prefix_min n i xs" and "i < j" "j < n" "length xs = n"
  shows "prefix_min n i (swap i j xs)"
  unfolding prefix_min_def
proof (intro allI impI)
  fix a b assume ab: "a < i" "b < n" "a < b"
  from assms ab have "xs ! a \<le> xs ! b" "xs ! a \<le> xs ! i" "xs ! a \<le> xs ! j"
    by (simp_all add: prefix_min_def)
  with assms ab show "swap i j xs ! a \<le> swap i j xs ! b"
    by (simp add: nth_swap)
qed

lemma sort_cmp_step:
  assumes inv: "sort_inv n p i q" and least: "least_upto i j (at q)" and ij: "i < j" "j < n"
  shows "sort_inv n p i (sort_cmp i j q) \<and> least_upto i (Suc j) (at (sort_cmp i j q))"
proof (cases "at q ! i > at q ! j")
  case True
  have len: "length (at q) = n" "length (bt q) = n" "length (pid q) = n"
    using inv by (simp_all add: sort_inv_def)
  have "least_upto i (Suc j) (swap i j (at q))"
    unfolding least_upto_def
  proof (intro allI impI)
    fix b assume b: "b < Suc j" "i < b"
    show "swap i j (at q) ! i \<le> swap i j (at q) ! b"
    proof (cases "b = j")
      case True
      with \<open>at q ! i > at q ! j\<close> ij len show ?thesis by (simp add: nth_swap)
    next
      case False
      with b least have "at q ! i \<le> at q ! b" by (simp add: least_upto_def)
      with False b \<open>at q ! i > at q ! j\<close> ij len show ?thesis by (simp add: nth_swap)
    qed
  qed
  moreover have "mset (records (sort_cmp i j q)) = mset (records p)"
    using mset_swap_records [of i n j q] ij len inv True
    by (simp add: sort_cmp_def sort_inv_def records_def)
  moreover have "prefix_min n i (swap i j (at q))"
    using inv ij len by (intro prefix_min_swap) (simp_all add: sort_inv_def)
  ultimately show ?thesis
    using True len by (simp add: sort_cmp_def sort_inv_def)
next
  case False
  have "least_upto i (Suc j) (at q)"
    unfolding least_upto_def
  proof (intro allI impI)
    fix b assume b: "b < Suc j" "i < b"
    with least False show "at q ! i \<le> at q ! b"
      by (cases "b = j") (simp_all add: least_upto_def)
  qed
  with False inv show ?thesis by (simp add: sort_cmp_def)
qed

lemma sort_inner_step:
  assumes inv: "sort_inv n p i q" and i: "i < n"
  shows "sort_inv n p (Suc i) (sort_inner n i q)"
proof -
  let ?J = "\<lambda>j q'. sort_inv n p i q' \<and> least_upto i j (at q')"
  have "?J n (fold (sort_cmp i) [i + 1..<n] q)"
  proof (rule fold_upt_inv [where I = ?J])
    show "i + 1 \<le> n" using i by simp
    show "?J (i + 1) q" using inv by (simp add: least_upto_def)
  next
    fix j q' assume "i + 1 \<le> j" "j < n" "?J j q'"
    then show "?J (Suc j) (sort_cmp i j q')"
      using sort_cmp_step [of n p i q' j] by simp
  qed
  then have J: "sort_inv n p i (sort_inner n i q)" "least_upto i n (at (sort_inner n i q))"
    by (simp_all add: sort_inner_def)
  have "prefix_min n (Suc i) (at (sort_inner n i q))"
    unfolding prefix_min_def
  proof (intro allI impI)
    fix a b assume ab: "a < Suc i" "b < n" "a < b"
    show "at (sort_inner n i q) ! a \<le> at (sort_inner n i q) ! b"
    proof (cases "a = i")
      case True
      with J(2) ab show ?thesis by (simp add: least_upto_def)
    next
      case False
      with J(1) ab show ?thesis by (simp add: sort_inv_def prefix_min_def)
    qed
  qed
  with J(1) show ?thesis by (simp add: sort_inv_def)
qed

lemma sort_arrival_inv:
  assumes "length (at p) = n" "length (bt p) = n" "length (pid p) = n"
  shows "sort_inv n p (n - 1) (sort_arrival n p)"
  unfolding sort_arrival_def
proof (rule fold_upt_inv [where I = "sort_inv n p"])
  show "sort_inv n p 0 p" using assms by (simp add: sort_inv_def prefix_min_def)
next
  fix k q assume "k < n - 1" "sort_inv n p k q"
  then show "sort_inv n p (Suc k) (sort_inner n k q)"
    by (intro sort_inner_step) simp_all
qed simp

lemma prefix_min_sorted:
  assumes "prefix_min n (n - 1) xs" and "length xs = n"
  shows "sorted xs"
  unfolding sorted_iff_nth_mono_less
proof (intro allI impI)
  fix i j assume "i < j" "j < length xs"
  with assms show "xs ! i \<le> xs ! j" by (simp add: prefix_min_def)
qed

lemma sort_cmp_sorted:
  assumes "sorted (at p)" "i < j" "j < length (at p)"
  shows "sort_cmp i j p = p"
  using sorted_nth_mono [OF assms(1), of i j] assms(2,3) by (simp add: sort_cmp_def)

lemma sort_inner_sorted:
  assumes "sorted (at p)" "length (at p) = n"
  shows "sort_inner n i p = p"
proof (cases "i + 1 \<le> n")
  case True
  have "fold (sort_cmp i) [i + 1..<n] p = p"
  proof (rule fold_upt_inv [where I = "\<lambda>_ q. q = p"])
    fix k q assume "i + 1 \<le> k" "k < n" "q = p"
    with assms show "sort_cmp i k q = p" by (simp add: sort_cmp_sorted)
  qed (use True in simp_all)
  then show ?thesis by (simp add: sort_inner_def)
next
  case False
  then show ?thesis by (simp add: sort_inner_def)
qed

lemma sort_arrival_sorted:
  assumes "sorted (at p)" "length (at p) = n"
  shows "sort_arrival n p = p"
  unfolding sort_arrival_def
proof (rule fold_upt_inv [where I = "\<lambda>_ q. q = p"])
  fix k q assume "q = p"
  with assms show "sort_inner n k q = p" by (simp add: sort_inner_sorted)
qed simp_all

lemma fcfs_sorted_perm:
  "sorted (at (fcfs_sorted inp)) \<and>
   mset (records (fcfs_sorted inp)) = mset (records (read_input inp))"
proof -
  let ?n = "length inp" and ?p = "read_input inp"
  have "sort_inv ?n ?p (?n - 1) (fcfs_sorted inp)"
    unfolding fcfs_sorted_def by (rule sort_arrival_inv) (simp_all add: read_input_sel)
  then have "prefix_min ?n (?n - 1) (at (fcfs_sorted inp))"
    and "length (at (fcfs_sorted inp)) = ?n"
    and perm: "mset (records (fcfs_sorted inp)) = mset (records ?p)"
    by (simp_all add: sort_inv_def)
  then have "sorted (at (fcfs_sorted inp))"
    by (intro prefix_min_sorted)
  with perm show ?thesis by simp
qed

text \<open>C1, as amended: the order used for simulation is sorted by arrival time and is a
  permutation of the input records; when the input is already in arrival order, the order
  is the input order (so ties keep their input order there).\<close>

theorem fcfs_sort_by_arrival:
  "sorted (at (fcfs_sorted inp)) \<and>
   mset (records (fcfs_sorted inp)) = mset (records (read_input inp)) \<and>
   (sorted (at (read_input inp)) \<longrightarrow> fcfs_sorted inp = read_input inp)"
proof -
  have "fcfs_sorted inp = read_input inp" if "sorted (at (read_input inp))"
    unfolding fcfs_sorted_def using that
    by (intro sort_arrival_sorted) (simp_all add: read_input_sel)
  with fcfs_sorted_perm [of inp] show ?thesis by blast
qed

theorem fcfs_sort_by_arrival_witness:
  "sorted (at (read_input abc_input)) \<and> sorted (at (fcfs_sorted abc_input)) \<and>
   mset (records (fcfs_sorted abc_input)) = mset (records (read_input abc_input)) \<and>
   fcfs_sorted abc_input = read_input abc_input"
proof -
  have "sorted (at (read_input abc_input))"
    by code_simp
  with fcfs_sort_by_arrival [of abc_input] show ?thesis by blast
qed

text \<open>The sort is not stable in general: on arrival times 2, 2, 1 the first pass swaps
  positions 0 and 2, which puts record 2 before record 1 although both arrive at 2.\<close>

theorem fcfs_sort_not_stable:
  "at (fcfs_sorted dup_input) = [1, 2, 2] \<and> bt (fcfs_sorted dup_input) = [3, 7, 5] \<and>
   pid (fcfs_sorted dup_input) = [3, 2, 1] \<and> \<not> stable_by_id (fcfs_sorted dup_input)"
  by code_simp

section \<open>FCFS: completion times\<close>

lemma fcfs_step_sel:
  "time (fcfs_step p i s) = i32 (max (time s) (at p ! i) + bt p ! i) \<and>
   ct (fcfs_step p i s) = (ct s)[i := i32 (max (time s) (at p ! i) + bt p ! i)]"
  if "i < length (ct s)"
  using that by (auto simp: fcfs_step_def Let_def max_def)

lemma fcfs_loop_ct:
  assumes "length (at p) = n" "length (bt p) = n" "length (ct s) = n"
    and fit: "\<forall>c\<in>set (spec_fcfs (time s) (zip (at p) (bt p))). in_int c"
  shows "ct (fcfs_loop n p s) = spec_fcfs (time s) (zip (at p) (bt p))"
proof -
  let ?spec = "spec_fcfs (time s) (zip (at p) (bt p))"
  let ?I = "\<lambda>k s'. length (ct s') = n \<and>
     ?spec = take k (ct s') @ spec_fcfs (time s') (drop k (zip (at p) (bt p)))"
  have "?I n (fold (fcfs_step p) [0..<n] s)"
  proof (rule fold_upt_inv [where I = ?I])
    show "?I 0 s" using assms by simp
  next
    fix k and s' :: table assume k: "k < n" and I: "?I k s'"
    let ?c = "max (time s') (at p ! k) + bt p ! k"
    have d: "drop k (zip (at p) (bt p)) = (at p ! k, bt p ! k) # drop (Suc k) (zip (at p) (bt p))"
      using k assms by (simp add: Cons_nth_drop_Suc [symmetric])
    have len: "k < length (ct s')" using I k by simp
    from I d have "?c \<in> set ?spec"
      by (simp add: Let_def)
    with fit have exact: "i32 ?c = ?c"
      by (intro i32_id) blast
    note sel = fcfs_step_sel [OF len, of p]
    show "?I (Suc k) (fcfs_step p k s')"
      using I k len
      by (simp add: sel exact d Let_def take_Suc_conv_app_nth)
  qed simp
  then show ?thesis using assms by (simp add: fcfs_loop_def)
qed

text \<open>C4, as amended: whenever the completion times that the specification's clock rule
  yields on the arrival-sorted records, from clock 0, all lie in the \<open>int\<close> range, they are
  the completion times the FCFS simulator computes; and the order of the records is sorted
  by arrival time and a permutation of the input.\<close>

theorem fcfs_simulation_matches_spec:
  assumes "\<forall>c\<in>set (spec_fcfs 0 (zip (at (fcfs_sorted inp)) (bt (fcfs_sorted inp)))). in_int c"
  shows "ct (fcfs_run inp) = spec_fcfs 0 (zip (at (fcfs_sorted inp)) (bt (fcfs_sorted inp))) \<and>
    sorted (at (fcfs_sorted inp)) \<and>
    mset (records (fcfs_sorted inp)) = mset (records (read_input inp))"
proof -
  have "time (fcfs_init (length inp)) = 0" "length (ct (fcfs_init (length inp))) = length inp"
    by (simp_all add: fcfs_init_def)
  with assms fcfs_loop_ct [of "fcfs_sorted inp" "length inp" "fcfs_init (length inp)"]
  have "ct (fcfs_run inp) = spec_fcfs 0 (zip (at (fcfs_sorted inp)) (bt (fcfs_sorted inp)))"
    by (simp add: fcfs_run_def fcfs_sorted_lengths)
  with fcfs_sorted_perm [of inp] show ?thesis by simp
qed

theorem fcfs_simulation_matches_spec_witness:
  "spec_fcfs 0 (zip (at (fcfs_sorted abc_input)) (bt (fcfs_sorted abc_input))) = [8, 12, 14] \<and>
   in_int 8 \<and> in_int 12 \<and> in_int 14 \<and>
   ct (fcfs_run abc_input) = [8, 12, 14] \<and>
   sorted (at (fcfs_sorted abc_input)) \<and>
   mset (records (fcfs_sorted abc_input)) = mset (records (read_input abc_input))"
proof -
  have spec: "spec_fcfs 0 (zip (at (fcfs_sorted abc_input)) (bt (fcfs_sorted abc_input))) =
    [8, 12, 14]"
    by code_simp
  have r: "in_int 8" "in_int 12" "in_int 14"
    by (simp_all add: in_int_def)
  with spec have h: "\<forall>c\<in>set (spec_fcfs 0 (zip (at (fcfs_sorted abc_input))
      (bt (fcfs_sorted abc_input)))). in_int c"
    by simp
  from fcfs_simulation_matches_spec [OF h] spec r show ?thesis by simp
qed

text \<open>Without the restriction the statement fails: on two records arriving at 0 with burst
  times \<open>2^31 - 1\<close> and 1, the second completion time of the clock rule is \<open>2^31\<close>, and the
  simulator's \<open>int\<close> addition yields \<open>-2^31\<close>.\<close>

theorem fcfs_completion_overflows:
  "ct (fcfs_run big_input) = [2147483647, - 2147483648] \<and>
   spec_fcfs 0 (zip (at (fcfs_sorted big_input)) (bt (fcfs_sorted big_input))) =
     [2147483647, 2147483648]"
  by code_simp

section \<open>The metric relations after FCFS\<close>









section \<open>The log of completion-time assignments\<close>

lemma full_log:
  assumes "distinct (map fst ws)" and "fst ` set ws \<subseteq> {..<n}" and "n \<le> length ws"
  shows "fst ` set ws = {..<n}"
proof -
  have "card (fst ` set ws) = length ws"
    using distinct_card [OF assms(1)] by simp
  with assms(3) have "card {..<n} \<le> card (fst ` set ws)" by simp
  with assms(2) show ?thesis by (intro card_seteq) simp_all
qed

lemma partial_log:
  assumes "distinct (map fst ws)" and "fst ` set ws = {i. i < n \<and> P i}" and "length ws < n"
  shows "\<exists>i<n. \<not> P i"
proof (rule ccontr)
  assume "\<not> (\<exists>i<n. \<not> P i)"
  with assms(2) have "fst ` set ws = {..<n}" by auto
  moreover have "card (fst ` set ws) = length ws"
    using distinct_card [OF assms(1)] by simp
  ultimately show False using assms(3) by simp
qed

lemma log_ok_write:
  fixes s s' :: "'a sjf_state_scheme"
  assumes ok: "log_ok n s D" and idx: "idx < n" "idx \<notin> D"
    and upd: "ct s' = (ct s)[idx := v]" "length (tat s') = n" "length (wt s') = n"
      "completed s' = completed s + 1" "writes s' = writes s @ [(idx, v)]"
  shows "log_ok n s' (insert idx D)"
proof -
  have other: "i \<noteq> idx" if "(i, w) \<in> set (writes s)" for i w
  proof -
    from that have "i \<in> fst ` set (writes s)" by force
    with ok idx(2) show ?thesis by (auto simp: log_ok_def)
  qed
  have "ct s' ! i = w" if "(i, w) \<in> set (writes s')" for i w
  proof (cases "(i, w) \<in> set (writes s)")
    case True
    with ok have "ct s ! i = w" by (auto simp: log_ok_def)
    with other [OF True] show ?thesis by (simp add: upd(1))
  next
    case False
    with that have "i = idx" "w = v" by (simp_all add: upd(5))
    with ok idx(1) show ?thesis by (simp add: upd(1) log_ok_def)
  qed
  moreover have "distinct (map fst (writes s'))"
    using ok idx(2) by (simp add: upd(5) log_ok_def)
  moreover have "fst ` set (writes s') = insert idx D"
    using ok by (simp add: upd(5) log_ok_def)
  ultimately show ?thesis
    using ok upd by (auto simp: log_ok_def)
qed

lemma log_ok_same:
  fixes s s' :: "'a sjf_state_scheme"
  assumes "log_ok n s D" and "D' = D"
    and "ct s' = ct s" "tat s' = tat s" "wt s' = wt s" "completed s' = completed s"
      "writes s' = writes s"
  shows "log_ok n s' D'"
  using assms by (simp add: log_ok_def)

lemma log_rows:
  fixes s :: "'a sjf_state_scheme"
  assumes "log_ok n s D" and "fst ` set (writes s) = {..<n}"
  shows "distinct (map fst (writes s)) \<and> fst ` set (writes s) = {..<n} \<and>
    length (print_rows n p s) = n \<and>
    (\<forall>(i, v)\<in>set (writes s). row_ct (print_rows n p s ! i) = v)"
proof -
  have "row_ct (print_rows n p s ! i) = v" if "(i, v) \<in> set (writes s)" for i v
  proof -
    from that have "i \<in> fst ` set (writes s)" by force
    with assms(2) have "i < n" by simp
    moreover from that assms(1) have "ct s ! i = v" by (auto simp: log_ok_def)
    ultimately show ?thesis by (simp add: print_rows_def row_ct_def)
  qed
  with assms show ?thesis by (auto simp: log_ok_def print_rows_def)
qed


section \<open>The non-preemptive loop\<close>

lemma np_init_inv: "np_inv n p (np_init n)"
  by (simp add: np_inv_def log_ok_def np_init_def in_int_def)

lemma np_body_idle:
  assumes "np_scan n p (time s) (done_flags s) = None"
  shows "np_body n p s = s\<lparr>time := i32 (time s + 1)\<rparr>"
  using assms by (simp add: np_body_def)

lemma np_body_select:
  assumes "np_scan n p (time s) (done_flags s) = Some idx"
  shows "np_body n p s =
     s\<lparr>time := i32 (time s + bt p ! idx),
       ct := (ct s)[idx := i32 (time s + bt p ! idx)],
       tat := (tat s)[idx := i32 ((ct s)[idx := i32 (time s + bt p ! idx)] ! idx - at p ! idx)],
       wt := (wt s)[idx := i32 ((tat s)[idx := i32 ((ct s)[idx := i32 (time s + bt p ! idx)] ! idx
         - at p ! idx)] ! idx - bt p ! idx)],
       done_flags := (done_flags s)[idx := True],
       completed := completed s + 1,
       writes := writes s @ [(idx, i32 (time s + bt p ! idx))]\<rparr>"
  using assms by (simp add: np_body_def Let_def)

lemma np_body_inv:
  assumes inv: "np_inv n p s"
  shows "np_inv n p (np_body n p s)"
proof (cases "np_scan n p (time s) (done_flags s)")
  case None
  with inv show ?thesis
    by (auto simp: np_body_idle np_inv_def log_ok_def i32_range)
next
  case (Some idx)
  note sel = np_scan_Some [OF Some]
  let ?s' = "np_body n p s"
  let ?D = "{i. i < n \<and> done_flags s ! i}"
  have idx: "idx < n" "\<not> done_flags s ! idx" "bt p ! idx < 1000000000"
    using sel by simp_all
  have len: "length (done_flags s) = n" "length (ct s) = n" "length (tat s) = n"
    "length (wt s) = n"
    using inv by (simp_all add: np_inv_def log_ok_def)
  have "log_ok n ?s' (insert idx ?D)"
    using inv idx len
    by (intro log_ok_write [where s = s and v = "i32 (time s + bt p ! idx)"])
       (simp_all add: np_inv_def np_body_select [OF Some])
  moreover have "insert idx ?D = {i. i < n \<and> done_flags ?s' ! i}"
    using idx len by (auto simp: np_body_select [OF Some] nth_list_update)
  moreover have "bt p ! i < 1000000000" if "i < n" "done_flags ?s' ! i" for i
  proof (cases "i = idx")
    case True
    with idx show ?thesis by simp
  next
    case False
    with that len have "done_flags s ! i"
      by (simp add: np_body_select [OF Some])
    with inv that(1) show ?thesis by (simp add: np_inv_def)
  qed
  moreover have "in_int (time ?s')"
    by (simp add: np_body_select [OF Some] i32_range)
  ultimately show ?thesis
    using len by (simp add: np_inv_def np_body_select [OF Some])
qed

lemma np_pending:
  assumes inv: "np_inv n p s" and more: "completed s < n"
    and idle: "np_scan n p (time s) (done_flags s) = None"
    and short: "\<forall>i<n. bt p ! i < 1000000000"
  shows "\<exists>i<n. time s < at p ! i"
proof -
  have "\<exists>i<n. \<not> done_flags s ! i"
    using inv more by (intro partial_log [of "writes s"]) (simp_all add: np_inv_def log_ok_def)
  then obtain i where i: "i < n" "\<not> done_flags s ! i" by blast
  with idle short have "time s < at p ! i"
    by (force simp: np_scan_None)
  with i show ?thesis by blast
qed

lemma idle_tick:
  assumes "in_int t" and "t < a" and "in_int a"
  shows "i32 (t + 1) = t + 1"
  using assms by (intro i32_id) (simp add: in_int_def)

lemma wf_np_order: "wf (np_order n p)"
  unfolding np_order_def by (intro wf_inv_image wf_lex_prod wf_less_than)

lemma np_body_decreases:
  assumes inv: "np_inv n p s" and more: "completed s < n"
    and tab: "table_ok n p" and short: "\<forall>i<n. bt p ! i < 1000000000"
  shows "(np_body n p s, s) \<in> np_order n p"
proof (cases "np_scan n p (time s) (done_flags s)")
  case None
  from np_pending [OF inv more None short]
  obtain i where i: "i < n" "time s < at p ! i" by blast
  with tab have a: "in_int (at p ! i)" "at p ! i \<le> horizon p"
    by (simp_all add: table_ok_def horizon_ge)
  from inv have "in_int (time s)" by (simp add: np_inv_def)
  from idle_tick [OF this i(2) a(1)] i(2) a(2) show ?thesis
    by (simp add: np_body_idle [OF None] np_order_def)
next
  case (Some idx)
  from more have "n - Suc (completed s) < n - completed s" by simp
  then show ?thesis
    by (simp add: np_body_select [OF Some] np_order_def)
qed

lemma np_loop_total:
  assumes tab: "table_ok n p" and short: "\<forall>i<n. bt p ! i < 1000000000"
  shows "\<exists>r. np_loop n p (np_init n) = Some r"
  by (rule np_loop_terminates [where I = "np_inv n p" and R = "np_order n p"])
     (simp_all add: wf_np_order np_init_inv np_body_inv np_body_decreases [OF _ _ tab short])

lemma np_loop_result:
  assumes "np_loop n p (np_init n) = Some r"
  shows "np_inv n p r \<and> fst ` set (writes r) = {..<n} \<and> (\<forall>i<n. done_flags r ! i) \<and>
    (\<forall>i<n. bt p ! i < 1000000000)"
proof -
  from np_loop_rule [OF assms, where I = "np_inv n p"]
  have inv: "np_inv n p r" and fin: "n \<le> completed r"
    by (simp_all add: np_init_inv np_body_inv)
  have "fst ` set (writes r) = {..<n}"
    using inv fin by (intro full_log) (auto simp: np_inv_def log_ok_def)
  moreover from this inv have "\<forall>i<n. done_flags r ! i"
    by (auto simp: np_inv_def log_ok_def)
  ultimately show ?thesis using inv by (simp add: np_inv_def)
qed





section \<open>The preemptive loop\<close>

lemma p_init_inv:
  assumes "length (bt p) = n" and "table_valid n p"
  shows "p_inv n p (p_init n p)"
  using assms by (auto simp: p_inv_def log_ok_def p_init_def in_int_def table_valid_def)

lemma p_body_idle:
  assumes "p_scan n p (time s) (rt s) = None"
  shows "p_body n p s = s\<lparr>time := i32 (time s + 1)\<rparr>"
  using assms by (simp add: p_body_def)

lemma p_decrement:
  assumes "p_scan n p (time s) (rt s) = Some idx"
  shows "i32 (rt s ! idx - 1) = rt s ! idx - 1"
  using p_scan_Some [OF assms] by (intro i32_id) (simp add: in_int_def)

lemma p_body_tick:
  assumes "p_scan n p (time s) (rt s) = Some idx" and "rt s ! idx \<noteq> 1" and "idx < length (rt s)"
  shows "p_body n p s = s\<lparr>time := i32 (time s + 1), rt := (rt s)[idx := rt s ! idx - 1]\<rparr>"
  using assms by (simp add: p_body_def Let_def p_decrement)

lemma p_body_finish:
  assumes "p_scan n p (time s) (rt s) = Some idx" and "rt s ! idx = 1" and "idx < length (rt s)"
  shows "p_body n p s =
     s\<lparr>time := i32 (time s + 1),
       ct := (ct s)[idx := i32 (time s + 1)],
       tat := (tat s)[idx := i32 ((ct s)[idx := i32 (time s + 1)] ! idx - at p ! idx)],
       wt := (wt s)[idx := i32 ((tat s)[idx := i32 ((ct s)[idx := i32 (time s + 1)] ! idx
         - at p ! idx)] ! idx - bt p ! idx)],
       rt := (rt s)[idx := 0],
       completed := completed s + 1,
       writes := writes s @ [(idx, i32 (time s + 1))]\<rparr>"
proof -
  from p_decrement [OF assms(1)] assms(2) have "i32 (rt s ! idx - 1) = 0"
    by simp
  with assms(3) show ?thesis
    by (simp add: p_body_def Let_def assms(1))
qed

lemma p_body_inv:
  assumes inv: "p_inv n p s"
  shows "p_inv n p (p_body n p s)"
proof (cases "p_scan n p (time s) (rt s)")
  case None
  with inv show ?thesis
    by (auto simp: p_body_idle [OF None] p_inv_def log_ok_def i32_range)
next
  case (Some idx)
  note sel = p_scan_Some [OF Some]
  let ?s' = "p_body n p s"
  let ?D = "{i. i < n \<and> rt s ! i = 0}"
  have idx: "idx < n" "0 < rt s ! idx" "rt s ! idx < 1000000000"
    using sel by simp_all
  have len: "length (rt s) = n" "length (ct s) = n" "length (tat s) = n" "length (wt s) = n"
    using inv by (simp_all add: p_inv_def log_ok_def)
  have bounds: "0 \<le> rt s ! i" "rt s ! i \<le> bt p ! i" if "i < n" for i
    using inv that by (simp_all add: p_inv_def)
  have begun: "bt p ! i < 1000000000" if "i < n" "rt s ! i < bt p ! i" for i
    using inv that by (simp add: p_inv_def)
  have begun_idx: "bt p ! idx < 1000000000"
    using begun [of idx] bounds [of idx] idx by (cases "rt s ! idx < bt p ! idx") simp_all
  have lenidx: "idx < length (rt s)" using idx len by simp
  show ?thesis
  proof (cases "rt s ! idx = 1")
    case True
    note body = p_body_finish [OF Some True lenidx]
    have "log_ok n ?s' (insert idx ?D)"
      using inv idx len
      by (intro log_ok_write [where s = s and v = "i32 (time s + 1)"])
         (simp_all add: p_inv_def body)
    moreover have "insert idx ?D = {i. i < n \<and> rt ?s' ! i = 0}"
      using idx len by (auto simp: body nth_list_update)
    moreover have "0 \<le> rt ?s' ! i \<and> rt ?s' ! i \<le> bt p ! i" if "i < n" for i
      using bounds [OF that] bounds [of idx] idx len that
      by (cases "i = idx") (simp_all add: body)
    moreover have "bt p ! i < 1000000000" if "i < n" "rt ?s' ! i < bt p ! i" for i
    proof (cases "i = idx")
      case True
      with begun_idx show ?thesis by simp
    next
      case False
      with that len show ?thesis by (simp add: body begun)
    qed
    moreover have "in_int (time ?s')"
      by (simp add: body i32_range)
    ultimately show ?thesis
      using len by (simp add: p_inv_def body)
  next
    case False
    note body = p_body_tick [OF Some False lenidx]
    have eqD: "{i. i < n \<and> rt ?s' ! i = 0} = ?D"
      using idx len False by (auto simp: body nth_list_update)
    have "log_ok n s ?D"
      using inv by (simp add: p_inv_def)
    then have "log_ok n ?s' {i. i < n \<and> rt ?s' ! i = 0}"
      by (rule log_ok_same [OF _ eqD]) (simp_all add: body)
    moreover have "0 \<le> rt ?s' ! i \<and> rt ?s' ! i \<le> bt p ! i" if "i < n" for i
      using bounds [OF that] bounds [of idx] idx len that
      by (cases "i = idx") (simp_all add: body)
    moreover have "bt p ! i < 1000000000" if "i < n" "rt ?s' ! i < bt p ! i" for i
    proof (cases "i = idx")
      case True
      with begun_idx show ?thesis by simp
    next
      case False
      with that len show ?thesis by (simp add: body begun)
    qed
    moreover have "in_int (time ?s')"
      by (simp add: body i32_range)
    ultimately show ?thesis
      using len by (simp add: p_inv_def body)
  qed
qed

lemma p_pending:
  assumes inv: "p_inv n p s" and more: "completed s < n"
    and idle: "p_scan n p (time s) (rt s) = None"
    and short: "\<forall>i<n. bt p ! i < 1000000000"
  shows "\<exists>i<n. time s < at p ! i"
proof -
  have "\<exists>i<n. \<not> rt s ! i = 0"
    using inv more by (intro partial_log [of "writes s"]) (simp_all add: p_inv_def log_ok_def)
  then obtain i where i: "i < n" "rt s ! i \<noteq> 0" by blast
  with inv short have "0 < rt s ! i" "rt s ! i < 1000000000"
    by (force simp: p_inv_def)+
  with idle i(1) have "time s < at p ! i"
    by (force simp: p_scan_None)
  with i show ?thesis by blast
qed

lemma sum_list_update_less:
  fixes xs :: "nat list"
  assumes "i < length xs" and "v < xs ! i"
  shows "sum_list (xs[i := v]) < sum_list xs"
  using assms elem_le_sum_list [of i xs] by (simp add: sum_list_update)

lemma wf_p_order: "wf (p_order p)"
  unfolding p_order_def by (intro wf_inv_image wf_lex_prod wf_less_than)

lemma p_body_decreases:
  assumes inv: "p_inv n p s" and more: "completed s < n"
    and tab: "table_ok n p" and short: "\<forall>i<n. bt p ! i < 1000000000"
  shows "(p_body n p s, s) \<in> p_order p"
proof (cases "p_scan n p (time s) (rt s)")
  case None
  from p_pending [OF inv more None short]
  obtain i where i: "i < n" "time s < at p ! i" by blast
  with tab have a: "in_int (at p ! i)" "at p ! i \<le> horizon p"
    by (simp_all add: table_ok_def horizon_ge)
  from inv have "in_int (time s)" by (simp add: p_inv_def)
  from idle_tick [OF this i(2) a(1)] i(2) a(2) show ?thesis
    by (simp add: p_body_idle [OF None] p_order_def)
next
  case (Some idx)
  note sel = p_scan_Some [OF Some]
  have lenidx: "idx < length (rt s)"
    using inv sel by (simp add: p_inv_def)
  have less: "sum_list (map nat ((rt s)[idx := rt s ! idx - 1])) < sum_list (map nat (rt s))"
    using lenidx sel by (simp add: map_update sum_list_update_less)
  show ?thesis
  proof (cases "rt s ! idx = 1")
    case True
    with less show ?thesis
      by (simp add: p_body_finish [OF Some True lenidx] p_order_def)
  next
    case False
    with less show ?thesis
      by (simp add: p_body_tick [OF Some False lenidx] p_order_def)
  qed
qed

lemma p_loop_total:
  assumes tab: "table_ok n p" "table_valid n p" and short: "\<forall>i<n. bt p ! i < 1000000000"
  shows "\<exists>r. p_loop n p (p_init n p) = Some r"
proof -
  from tab(1) have len: "length (bt p) = n" by (simp add: table_ok_def)
  show ?thesis
    by (rule p_loop_terminates [where I = "p_inv n p" and R = "p_order p"])
       (simp_all add: wf_p_order p_init_inv [OF len tab(2)] p_body_inv
          p_body_decreases [OF _ _ tab(1) short])
qed

lemma p_loop_result:
  assumes run: "p_loop n p (p_init n p) = Some r"
    and len: "length (bt p) = n" and valid: "table_valid n p"
  shows "p_inv n p r \<and> fst ` set (writes r) = {..<n} \<and> (\<forall>i<n. rt r ! i = 0) \<and>
    (\<forall>i<n. bt p ! i < 1000000000)"
proof -
  from p_loop_rule [OF run, where I = "p_inv n p"]
  have inv: "p_inv n p r" and fin: "n \<le> completed r"
    by (simp_all add: p_init_inv [OF len valid] p_body_inv)
  have "fst ` set (writes r) = {..<n}"
    using inv fin by (intro full_log) (auto simp: p_inv_def log_ok_def)
  moreover from this inv have zero: "\<forall>i<n. rt r ! i = 0"
    by (auto simp: p_inv_def log_ok_def)
  moreover have "bt p ! i < 1000000000" if "i < n" for i
  proof -
    from that zero valid have "rt r ! i < bt p ! i" by (simp add: table_valid_def)
    with inv that show ?thesis by (simp add: p_inv_def)
  qed
  ultimately show ?thesis using inv by simp
qed





section \<open>Results of the SJF program\<close>

lemma sjf_main_np:
  "sjf_main inp 1 = map_option (\<lambda>s. (writes s, Table (print_rows (length inp) (read_input inp) s)))
     (np_loop (length inp) (read_input inp) (np_init (length inp)))"
  by (simp add: sjf_main_def Let_def map_option_case)

lemma sjf_main_p:
  "sjf_main inp 2 = map_option (\<lambda>s. (writes s, Table (print_rows (length inp) (read_input inp) s)))
     (p_loop (length inp) (read_input inp) (p_init (length inp) (read_input inp)))"
  by (simp add: sjf_main_def Let_def map_option_case)






text \<open>C3, as amended: for every valid input whose burst times are all below \<open>1e9\<close>, the loop
  of the selected SJF mode terminates, every record receives exactly one assignment of its
  completion time (no index is logged twice, every index is logged), and the printed
  completion time is the assigned value.\<close>

theorem sjf_terminates_below_sentinel:
  assumes valid: "valid_input inp" and short: "short_jobs inp"
    and mode: "choice = 1 \<or> choice = 2"
  shows "\<exists>ws rows. sjf_main inp choice = Some (ws, Table rows) \<and>
    distinct (map fst ws) \<and> fst ` set ws = {..<length inp} \<and>
    length rows = length inp \<and> (\<forall>(i, v)\<in>set ws. row_ct (rows ! i) = v)"
proof -
  let ?n = "length inp" and ?p = "read_input inp"
  note tab = read_input_ok [of inp] valid_input_bt [OF valid] and lt = short_jobs_bt [OF short]
  from mode show ?thesis
  proof
    assume c: "choice = 1"
    from np_loop_total [OF tab(1) lt]
    obtain r where r: "np_loop ?n ?p (np_init ?n) = Some r" by blast
    from np_loop_result [OF r] have "log_ok ?n r {i. i < ?n \<and> done_flags r ! i}"
      and "fst ` set (writes r) = {..<?n}"
      by (simp_all add: np_inv_def)
    from log_rows [OF this, of ?p] show ?thesis
      by (simp add: c sjf_main_np r)
  next
    assume c: "choice = 2"
    from p_loop_total [OF tab lt]
    obtain r where r: "p_loop ?n ?p (p_init ?n ?p) = Some r" by blast
    from p_loop_result [OF r read_input_sel(2) tab(2)]
    have "log_ok ?n r {i. i < ?n \<and> rt r ! i = 0}"
      and "fst ` set (writes r) = {..<?n}"
      by (simp_all add: p_inv_def)
    from log_rows [OF this, of ?p] show ?thesis
      by (simp add: c sjf_main_p r)
  qed
qed

theorem sjf_terminates_below_sentinel_witness:
  "valid_input abc_input \<and> short_jobs abc_input \<and>
   (\<exists>ws rows. sjf_main abc_input 2 = Some (ws, Table rows) \<and>
      distinct (map fst ws) \<and> fst ` set ws = {..<length abc_input} \<and>
      length rows = length abc_input \<and> (\<forall>(i, v)\<in>set ws. row_ct (rows ! i) = v))"
proof -
  have v: "valid_input abc_input" and s: "short_jobs abc_input"
    by code_simp+
  from sjf_terminates_below_sentinel [OF v s, of 2] v s show ?thesis by simp
qed

text \<open>The claim as stated fails: a single process with arrival time 0 and burst time \<open>1e9\<close>
  is a valid input, and neither loop ever leaves its idle branch on it.\<close>

lemma huge_np_scan: "np_scan 1 (read_input huge_input) t d = None"
  by (simp add: np_scan_None read_input_def huge_input_def)

lemma huge_p_scan: "p_scan 1 (read_input huge_input) t [1000000000] = None"
  by (simp add: p_scan_None)

lemma huge_np_body:
  "completed (np_body 1 (read_input huge_input) s) = completed s"
  by (simp only: np_body_idle [OF huge_np_scan]) simp

lemma huge_p_body:
  assumes "rt s = [1000000000]"
  shows "completed (p_body 1 (read_input huge_input) s) = completed s \<and>
    rt (p_body 1 (read_input huge_input) s) = [1000000000]"
proof -
  from assms have "p_scan 1 (read_input huge_input) (time s) (rt s) = None"
    by (simp only: huge_p_scan)
  then show ?thesis using assms by (simp only: p_body_idle) simp
qed

theorem sjf_sentinel_diverges:
  "valid_input huge_input \<and> sjf_main huge_input 1 = None \<and> sjf_main huge_input 2 = None"
proof -
  have "np_loop 1 (read_input huge_input) (np_init 1) = None"
  proof (rule np_loop_diverges [where I = "\<lambda>s. completed s = 0"])
    show "completed (np_init 1) = 0" by (simp add: np_init_def)
  next
    fix s :: np_state assume "completed s = 0"
    then show "completed s < 1 \<and> completed (np_body 1 (read_input huge_input) s) = 0"
      using huge_np_body [of s] by simp
  qed
  moreover have "p_loop 1 (read_input huge_input) (p_init 1 (read_input huge_input)) = None"
  proof (rule p_loop_diverges [where I = "\<lambda>s. completed s = 0 \<and> rt s = [1000000000]"])
    show "completed (p_init 1 (read_input huge_input)) = 0 \<and>
      rt (p_init 1 (read_input huge_input)) = [1000000000]"
      by (simp add: p_init_def read_input_def huge_input_def)
  next
    fix s :: p_state assume "completed s = 0 \<and> rt s = [1000000000]"
    then show "completed s < 1 \<and>
      (completed (p_body 1 (read_input huge_input) s) = 0 \<and>
       rt (p_body 1 (read_input huge_input) s) = [1000000000])"
      using huge_p_body [of s] by simp
  qed
  moreover have "valid_input huge_input" "length huge_input = 1"
    by (simp_all add: valid_input_def huge_input_def)
  ultimately show ?thesis
    by (simp only: sjf_main_np sjf_main_p) simp
qed

section \<open>The selection scan and its initial minimum\<close>

text \<open>C2, as amended: at a selection point of the non-preemptive loop at which some eligible
  record (not completed, arrived) has a burst time below \<open>1e9\<close>, the scan selects an eligible
  record of minimum burst time, and among those of minimum burst time the one with the
  lowest id; that record is then run to completion. Arrival time plays no part in the
  choice.\<close>

theorem np_scan_picks_shortest_lowest_id:
  assumes "j < length inp" and "at (read_input inp) ! j \<le> time s"
    and "\<not> done_flags s ! j" and "bt (read_input inp) ! j < 1000000000"
  shows "\<exists>i. np_scan (length inp) (read_input inp) (time s) (done_flags s) = Some i \<and>
    code_sjf_choice (length inp) (read_input inp) (time s) (done_flags s) i \<and>
    writes (np_body (length inp) (read_input inp) s) =
      writes s @ [(i, i32 (time s + bt (read_input inp) ! i))]"
proof -
  let ?n = "length inp" and ?p = "read_input inp"
  let ?t = "time s" and ?d = "done_flags s"
  have "np_scan ?n ?p ?t ?d \<noteq> None"
  proof
    assume "np_scan ?n ?p ?t ?d = None"
    with assms(1-3) have "1000000000 \<le> bt ?p ! j"
      unfolding np_scan_None by blast
    with assms(4) show False by simp
  qed
  then obtain i where i: "np_scan ?n ?p ?t ?d = Some i" by blast
  note sel = np_scan_Some [OF i]
  have "bt ?p ! i < bt ?p ! k \<or> (bt ?p ! i = bt ?p ! k \<and> pid ?p ! i \<le> pid ?p ! k)"
    if "k < ?n" "at ?p ! k \<le> ?t" "\<not> ?d ! k" for k
  proof -
    from sel that have "bt ?p ! i < bt ?p ! k \<or> (bt ?p ! i = bt ?p ! k \<and> i \<le> k)"
      by blast
    with sel that(1) show ?thesis by (auto simp: read_input_sel)
  qed
  with sel have "code_sjf_choice ?n ?p ?t ?d i"
    by (simp add: code_sjf_choice_def)
  moreover have "writes (np_body ?n ?p s) = writes s @ [(i, i32 (?t + bt ?p ! i))]"
    by (simp add: np_body_select [OF i])
  ultimately show ?thesis using i by blast
qed

theorem np_scan_picks_shortest_lowest_id_witness:
  "1 < length tie_input \<and>
   at (read_input tie_input) ! 1 \<le> time (np_steps 3 (read_input tie_input) 1 (np_init 3)) \<and>
   \<not> done_flags (np_steps 3 (read_input tie_input) 1 (np_init 3)) ! 1 \<and>
   bt (read_input tie_input) ! 1 < 1000000000 \<and>
   (\<exists>i. np_scan (length tie_input) (read_input tie_input)
          (time (np_steps 3 (read_input tie_input) 1 (np_init 3)))
          (done_flags (np_steps 3 (read_input tie_input) 1 (np_init 3))) = Some i \<and>
      code_sjf_choice (length tie_input) (read_input tie_input)
          (time (np_steps 3 (read_input tie_input) 1 (np_init 3)))
          (done_flags (np_steps 3 (read_input tie_input) 1 (np_init 3))) i \<and>
      writes (np_body (length tie_input) (read_input tie_input)
          (np_steps 3 (read_input tie_input) 1 (np_init 3))) =
        writes (np_steps 3 (read_input tie_input) 1 (np_init 3)) @
          [(i, i32 (time (np_steps 3 (read_input tie_input) 1 (np_init 3)) +
               bt (read_input tie_input) ! i))])"
proof -
  have h: "1 < length tie_input"
    "at (read_input tie_input) ! 1 \<le> time (np_steps 3 (read_input tie_input) 1 (np_init 3))"
    "\<not> done_flags (np_steps 3 (read_input tie_input) 1 (np_init 3)) ! 1"
    "bt (read_input tie_input) ! 1 < 1000000000"
    by code_simp+
  from np_scan_picks_shortest_lowest_id [OF h] h show ?thesis by blast
qed

text \<open>The tie-break by arrival time of the claim fails: after the first iteration on
  \<open>tie_input\<close> the clock is 5, records 2 and 3 are eligible with burst time 3, record 3
  arrived first, and the scan selects record 2 (index 1), which completes at 8 before
  record 3.\<close>

theorem np_scan_ignores_arrival:
  "time (np_steps 3 (read_input tie_input) 1 (np_init 3)) = 5 \<and>
   done_flags (np_steps 3 (read_input tie_input) 1 (np_init 3)) = [True, False, False] \<and>
   np_scan 3 (read_input tie_input) 5 [True, False, False] = Some 1 \<and>
   \<not> spec_sjf_choice 3 (read_input tie_input) 5 [True, False, False] 1 \<and>
   spec_sjf_choice 3 (read_input tie_input) 5 [True, False, False] 2 \<and>
   sjf_main tie_input 1 =
     Some ([(0, 5), (1, 8), (2, 11)],
           Table [(1, 0, 5, 5, 5, 0), (2, 2, 3, 8, 6, 3), (3, 1, 3, 11, 10, 7)])"
  by code_simp

lemma np_steps_skip:
  assumes "1000000000 \<le> bt p ! j" and "j \<notin> fst ` set (writes s)"
  shows "j \<notin> fst ` set (writes (np_steps n p k s))"
  using assms(2)
proof (induction k arbitrary: s)
  case 0
  then show ?case by simp
next
  case (Suc k)
  have "j \<notin> fst ` set (writes (np_body n p s))"
  proof (cases "np_scan n p (time s) (done_flags s)")
    case None
    with Suc.prems show ?thesis by (simp add: np_body_idle)
  next
    case (Some idx)
    from np_scan_Some [OF Some] assms(1) have "idx \<noteq> j" by auto
    with Suc.prems show ?thesis by (simp add: np_body_select [OF Some])
  qed
  then show ?case by (simp add: Suc.IH)
qed

lemma p_body_skip:
  assumes "1000000000 \<le> rt s ! j" and "j \<notin> fst ` set (writes s)"
  shows "rt (p_body n p s) ! j = rt s ! j \<and> j \<notin> fst ` set (writes (p_body n p s))"
proof (cases "p_scan n p (time s) (rt s)")
  case None
  with assms show ?thesis by (simp add: p_body_idle)
next
  case (Some idx)
  from p_scan_Some [OF Some] assms(1) have "idx \<noteq> j" by auto
  with assms(2) Some show ?thesis by (simp add: p_body_def Let_def)
qed

lemma p_steps_skip:
  assumes "1000000000 \<le> rt s ! j" and "j \<notin> fst ` set (writes s)"
  shows "j \<notin> fst ` set (writes (p_steps n p k s))"
  using assms
proof (induction k arbitrary: s)
  case 0
  then show ?case by simp
next
  case (Suc k)
  from p_body_skip [OF Suc.prems, of n p] Suc.prems(1)
  have "1000000000 \<le> rt (p_body n p s) ! j" "j \<notin> fst ` set (writes (p_body n p s))"
    by simp_all
  then show ?case by (simp add: Suc.IH)
qed

text \<open>C10: a scan only returns an index whose burst time (non-preemptive) or remaining time
  (preemptive) is below \<open>1e9\<close>; an index whose burst or remaining time is at least \<open>1e9\<close> is
  never returned; and however many iterations either loop body runs from the initial state,
  no completion time is ever assigned to a record whose burst time is at least \<open>1e9\<close>.\<close>

theorem sentinel_excludes_long_jobs:
  "(np_scan n p t d = Some i \<longrightarrow> bt p ! i < 1000000000) \<and>
   (p_scan n p t r = Some i \<longrightarrow> r ! i < 1000000000) \<and>
   (1000000000 \<le> bt p ! j \<longrightarrow>
      np_scan n p t d \<noteq> Some j \<and> j \<notin> fst ` set (writes (np_steps n p k (np_init n)))) \<and>
   (1000000000 \<le> r ! j \<longrightarrow> p_scan n p t r \<noteq> Some j) \<and>
   (1000000000 \<le> bt p ! j \<longrightarrow> j \<notin> fst ` set (writes (p_steps n p k (p_init n p))))"
proof (intro conjI impI)
  show "bt p ! i < 1000000000" if "np_scan n p t d = Some i"
    using np_scan_Some [OF that] by simp
  show "r ! i < 1000000000" if "p_scan n p t r = Some i"
    using p_scan_Some [OF that] by simp
  show "np_scan n p t d \<noteq> Some j" if "1000000000 \<le> bt p ! j"
    using np_scan_Some [of n p t d j] that by auto
  show "j \<notin> fst ` set (writes (np_steps n p k (np_init n)))" if "1000000000 \<le> bt p ! j"
    using that by (intro np_steps_skip) (simp_all add: np_init_def)
  show "p_scan n p t r \<noteq> Some j" if "1000000000 \<le> r ! j"
    using p_scan_Some [of n p t r j] that by auto
  show "j \<notin> fst ` set (writes (p_steps n p k (p_init n p)))" if "1000000000 \<le> bt p ! j"
    using that by (intro p_steps_skip) (simp_all add: p_init_def)
qed

theorem sentinel_excludes_long_jobs_witness:
  "np_scan 2 (read_input mixed_input) 0 [False, False] = Some 1 \<and>
   bt (read_input mixed_input) ! 1 < 1000000000 \<and>
   p_scan 2 (read_input mixed_input) 0 [1000000000, 2] = Some 1 \<and>
   [1000000000, 2 :: int] ! 1 < 1000000000 \<and>
   1000000000 \<le> bt (read_input mixed_input) ! 0 \<and>
   np_scan 2 (read_input mixed_input) 0 [False, False] \<noteq> Some 0 \<and>
   0 \<notin> fst ` set (writes (np_steps 2 (read_input mixed_input) 5 (np_init 2))) \<and>
   1000000000 \<le> [1000000000, 2 :: int] ! 0 \<and>
   p_scan 2 (read_input mixed_input) 0 [1000000000, 2] \<noteq> Some 0 \<and>
   0 \<notin> fst ` set (writes (p_steps 2 (read_input mixed_input) 5
      (p_init 2 (read_input mixed_input))))"
proof -
  have h1: "np_scan 2 (read_input mixed_input) 0 [False, False] = Some 1"
    by code_simp
  have h2: "p_scan 2 (read_input mixed_input) 0 [1000000000, 2] = Some 1"
    by code_simp
  have h3: "1000000000 \<le> bt (read_input mixed_input) ! 0"
    by code_simp
  have h4: "1000000000 \<le> [1000000000, 2 :: int] ! 0"
    by simp
  from sentinel_excludes_long_jobs
    [of 2 "read_input mixed_input" 0 "[False, False]" 1 "[1000000000, 2]" 0 5]
    h1 h2 h3 h4
  show ?thesis by simp
qed

section \<open>The example runs\<close>

text \<open>C5: on A(0,8), B(1,4), C(2,2) the non-preemptive mode completes A, then C, then B
  (the order of the \<open>ct\<close> assignments), with completion times 8, 10 and 14, turnaround
  times 8, 8 and 13 and waiting times 0, 6 and 9.\<close>

theorem sjf_nonpreemptive_example:
  "sjf_main abc_input 1 =
     Some ([(0, 8), (2, 10), (1, 14)],
           Table [(1, 0, 8, 8, 8, 0), (2, 1, 4, 14, 13, 9), (3, 2, 2, 10, 8, 6)])"
  by code_simp

text \<open>C6: on the same input the preemptive mode completes C at 4, B at 7 and A at 14, and
  each completion time is written in the very iteration in which the remaining time reaches
  zero: before the 4th, 7th and 14th iteration the record's remaining time is 1 and nothing
  is logged for it; after it the remaining time is 0, the clock is 4, 7 and 14, and the
  assignment of that clock value is the last entry of the log.\<close>

theorem sjf_preemptive_example:
  "sjf_main abc_input 2 =
     Some ([(2, 4), (1, 7), (0, 14)],
           Table [(1, 0, 8, 14, 14, 6), (2, 1, 4, 7, 6, 2), (3, 2, 2, 4, 2, 0)]) \<and>
   rt (p_steps 3 (read_input abc_input) 3 (p_init 3 (read_input abc_input))) = [7, 3, 1] \<and>
   writes (p_steps 3 (read_input abc_input) 3 (p_init 3 (read_input abc_input))) = [] \<and>
   rt (p_steps 3 (read_input abc_input) 4 (p_init 3 (read_input abc_input))) = [7, 3, 0] \<and>
   time (p_steps 3 (read_input abc_input) 4 (p_init 3 (read_input abc_input))) = 4 \<and>
   writes (p_steps 3 (read_input abc_input) 4 (p_init 3 (read_input abc_input))) = [(2, 4)] \<and>
   rt (p_steps 3 (read_input abc_input) 6 (p_init 3 (read_input abc_input))) = [7, 1, 0] \<and>
   writes (p_steps 3 (read_input abc_input) 6 (p_init 3 (read_input abc_input))) = [(2, 4)] \<and>
   rt (p_steps 3 (read_input abc_input) 7 (p_init 3 (read_input abc_input))) = [7, 0, 0] \<and>
   time (p_steps 3 (read_input abc_input) 7 (p_init 3 (read_input abc_input))) = 7 \<and>
   writes (p_steps 3 (read_input abc_input) 7 (p_init 3 (read_input abc_input))) =
     [(2, 4), (1, 7)] \<and>
   rt (p_steps 3 (read_input abc_input) 13 (p_init 3 (read_input abc_input))) = [1, 0, 0] \<and>
   writes (p_steps 3 (read_input abc_input) 13 (p_init 3 (read_input abc_input))) =
     [(2, 4), (1, 7)] \<and>
   rt (p_steps 3 (read_input abc_input) 14 (p_init 3 (read_input abc_input))) = [0, 0, 0] \<and>
   time (p_steps 3 (read_input abc_input) 14 (p_init 3 (read_input abc_input))) = 14 \<and>
   writes (p_steps 3 (read_input abc_input) 14 (p_init 3 (read_input abc_input))) =
     [(2, 4), (1, 7), (0, 14)]"
  by code_simp

section \<open>The mode selector\<close>

text \<open>C8: with a mode selector other than 1 and 2 neither loop is entered: the run ends at
  once with the message of the \<open>else\<close> branch, the log of \<open>ct\<close> assignments is empty and
  no table is printed.\<close>

theorem sjf_invalid_choice:
  assumes "choice \<noteq> 1" and "choice \<noteq> 2"
  shows "sjf_main inp choice = Some ([], Invalid_choice)"
  using assms by (simp add: sjf_main_def)

theorem sjf_invalid_choice_witness:
  "(3::int) \<noteq> 1 \<and> (3::int) \<noteq> 2 \<and> sjf_main abc_input 3 = Some ([], Invalid_choice)"
  using sjf_invalid_choice [of 3 abc_input] by simp

end
